theory Spec2Isabelle
  imports Main "HOL-Library.AList"
begin

chapter \<open>The program\<close>

section \<open>Episode selection store (hooks/useSelectedEpisodes.ts)\<close>

text \<open>
  The hook keeps one React state value of type \<^verbatim>\<open>SelectedEpisodesState\<close>, an object that
  sends a dataset id to an array of episode ids. The object is a partial map from strings to
  lists; episode ids are integers. The hook's parameter \<^verbatim>\<open>datasetId?: string\<close> is a
  \<open>string option\<close>, with \<open>None\<close> for \<^verbatim>\<open>undefined\<close>. The keys are the object's own
  properties: the viewer passes ids of the form \<^verbatim>\<open>namespace/name\<close>, which are never names of
  inherited properties.

  Every operation starts with \<^verbatim>\<open>if (!datasetId) return\<close>. In JavaScript \<^verbatim>\<open>!s\<close> is true
  for \<^verbatim>\<open>undefined\<close> and for the empty string, and false for every other string.
\<close>

type_synonym SelectedEpisodesState = "string \<rightharpoonup> int list"

text \<open>\<^verbatim>\<open>prev[datasetId] || []\<close>: the stored array (an array is always truthy), or the empty one.\<close>

definition stored :: "SelectedEpisodesState \<Rightarrow> string \<Rightarrow> int list" where
  "stored prev d = (case prev d of None \<Rightarrow> [] | Some current \<Rightarrow> current)"

text \<open>
  \<^verbatim>\<open>toggleEpisode\<close>: the state updater removes every occurrence of the id when the array
  includes it, and otherwise appends it and sorts with the comparator \<^verbatim>\<open>(a, b) => a - b\<close>,
  which is the ascending numeric order.
\<close>

definition toggleEpisode :: "string option \<Rightarrow> int \<Rightarrow> SelectedEpisodesState \<Rightarrow> SelectedEpisodesState" where
  "toggleEpisode datasetId episodeId prev =
     (case datasetId of
        None \<Rightarrow> prev
      | Some d \<Rightarrow>
          if d = [] then prev
          else
            let current = stored prev d;
                isSelected = episodeId \<in> set current
            in if isSelected
               then prev(d \<mapsto> filter (\<lambda>id. id \<noteq> episodeId) current)
               else prev(d \<mapsto> sort (current @ [episodeId])))"

definition clearSelection :: "string option \<Rightarrow> SelectedEpisodesState \<Rightarrow> SelectedEpisodesState" where
  "clearSelection datasetId prev =
     (case datasetId of
        None \<Rightarrow> prev
      | Some d \<Rightarrow> if d = [] then prev else prev(d \<mapsto> []))"

definition selectAll :: "string option \<Rightarrow> int list \<Rightarrow> SelectedEpisodesState \<Rightarrow> SelectedEpisodesState" where
  "selectAll datasetId episodeIds prev =
     (case datasetId of
        None \<Rightarrow> prev
      | Some d \<Rightarrow> if d = [] then prev else prev(d \<mapsto> sort episodeIds))"

definition isSelected :: "string option \<Rightarrow> SelectedEpisodesState \<Rightarrow> int \<Rightarrow> bool" where
  "isSelected datasetId selectedEpisodes episodeId =
     (case datasetId of
        None \<Rightarrow> False
      | Some d \<Rightarrow> if d = [] then False else episodeId \<in> set (stored selectedEpisodes d))"

definition getSelectedForDataset :: "string option \<Rightarrow> SelectedEpisodesState \<Rightarrow> int list" where
  "getSelectedForDataset datasetId selectedEpisodes =
     (case datasetId of
        None \<Rightarrow> []
      | Some d \<Rightarrow> if d = [] then [] else stored selectedEpisodes d)"

text \<open>The two data fields of the object the hook returns.\<close>

definition selectedCount :: "string option \<Rightarrow> SelectedEpisodesState \<Rightarrow> nat" where
  "selectedCount datasetId selectedEpisodes = length (getSelectedForDataset datasetId selectedEpisodes)"





section \<open>The selection store at an episode id that is not a number\<close>

text \<open>
  The viewer takes its first episode id from the route: \<^verbatim>\<open>parseInt(episodeId)\<close>, which is
  \<^verbatim>\<open>NaN\<close> when the route segment does not start with a digit. It keeps that value as
  \<^verbatim>\<open>currentEpisodeId\<close> and the shortcut Ctrl+K passes it to \<^verbatim>\<open>toggleEpisode\<close>. Here the
  same updater is written over whole numbers and \<^verbatim>\<open>NaN\<close>, with the three comparisons of
  the source kept apart:
  \<^item> \<^verbatim>\<open>current.includes(episodeId)\<close> compares by SameValueZero, for which \<^verbatim>\<open>NaN\<close> is
    equal to itself: membership in the list;
  \<^item> \<^verbatim>\<open>id !== episodeId\<close> is the negation of strict equality, which is false whenever
    one side is \<^verbatim>\<open>NaN\<close>;
  \<^item> the comparator \<^verbatim>\<open>(a, b) => a - b\<close> gives \<^verbatim>\<open>NaN\<close> when one side is \<^verbatim>\<open>NaN\<close>, which
    the sort reads as 0 (equal). The sort is stable; it is written as the insertion sort
    that \<open>sort\<close> is, with the comparator in place of the order.
\<close>

datatype number = Whole int | NaN

definition strict_equal :: "number \<Rightarrow> number \<Rightarrow> bool" where
  "strict_equal a b = (case (a, b) of (Whole x, Whole y) \<Rightarrow> x = y | _ \<Rightarrow> False)"

definition compareFn :: "number \<Rightarrow> number \<Rightarrow> number" where
  "compareFn a b = (case (a, b) of (Whole x, Whole y) \<Rightarrow> Whole (x - y) | _ \<Rightarrow> NaN)"

definition sort_compare :: "number \<Rightarrow> number \<Rightarrow> int" where
  "sort_compare a b = (case compareFn a b of Whole v \<Rightarrow> v | NaN \<Rightarrow> 0)"

fun insert_number :: "number \<Rightarrow> number list \<Rightarrow> number list" where
  "insert_number x [] = [x]"
| "insert_number x (y # ys) =
     (if sort_compare x y \<le> 0 then x # y # ys else y # insert_number x ys)"

definition sort_numbers :: "number list \<Rightarrow> number list" where
  "sort_numbers xs = foldr insert_number xs []"

type_synonym NumberSelection = "string \<rightharpoonup> number list"

definition stored_numbers :: "NumberSelection \<Rightarrow> string \<Rightarrow> number list" where
  "stored_numbers prev d = (case prev d of None \<Rightarrow> [] | Some current \<Rightarrow> current)"

definition toggleEpisode_number :: "string option \<Rightarrow> number \<Rightarrow> NumberSelection \<Rightarrow> NumberSelection" where
  "toggleEpisode_number datasetId episodeId prev =
     (case datasetId of
        None \<Rightarrow> prev
      | Some d \<Rightarrow>
          if d = [] then prev
          else
            let current = stored_numbers prev d;
                isSelected = episodeId \<in> set current
            in if isSelected
               then prev(d \<mapsto> filter (\<lambda>id. \<not> strict_equal id episodeId) current)
               else prev(d \<mapsto> sort_numbers (current @ [episodeId])))"

definition isSelected_number :: "string option \<Rightarrow> NumberSelection \<Rightarrow> number \<Rightarrow> bool" where
  "isSelected_number datasetId selectedEpisodes episodeId =
     (case datasetId of
        None \<Rightarrow> False
      | Some d \<Rightarrow> if d = [] then False else episodeId \<in> set (stored_numbers selectedEpisodes d))"

text \<open>A store of whole-number ids, read as a store of numbers.\<close>

definition as_numbers :: "SelectedEpisodesState \<Rightarrow> NumberSelection" where
  "as_numbers s d = map_option (map Whole) (s d)"

section \<open>Task tagging store (hooks/useTaskManagement.ts)\<close>

text \<open>
  \<^verbatim>\<open>TaskData\<close> holds the two React state values of the hook: the ordered list of labels and
  the object \<^verbatim>\<open>episodeTasks: Record<number, string>\<close>. A JavaScript object is keyed by
  property names, which are strings: \<^verbatim>\<open>episodeTasks[episodeId]\<close> names the property
  \<^verbatim>\<open>ToString(episodeId)\<close>. The object is an association list from property name to label;
  reading a property is \<open>map_of\<close>, assigning one is \<open>AList.update\<close> (in place when it exists,
  appended otherwise) and \<^verbatim>\<open>delete\<close> is \<open>AList.delete\<close>. The functions of the hook take the
  episode id as the name of its property: \<open>ToString 3 = ''3''\<close> for a whole number, and
  \<^verbatim>\<open>'2.5'\<close>, \<^verbatim>\<open>'1e+21'\<close>, \<^verbatim>\<open>'NaN'\<close> for the numbers 2.5, \<^verbatim>\<open>1e21\<close> and \<^verbatim>\<open>NaN\<close>.
\<close>

record TaskData =
  availableTasks :: "string list"
  episodeTasks :: "(string \<times> string) list"

text \<open>
  \<^verbatim>\<open>ToString\<close> of a whole number: its decimal digits, with a minus sign when negative.
  (This is the form of the numbers below \<^verbatim>\<open>1e21\<close> in size.)
\<close>

function show_nat :: "nat \<Rightarrow> string" where
  "show_nat n =
     (if n < 10 then [''0123456789'' ! n]
      else show_nat (n div 10) @ [''0123456789'' ! (n mod 10)])"
  by pat_completeness auto
termination
  by (relation "measure id") auto

declare show_nat.simps [simp del]

definition ToString :: "int \<Rightarrow> string" where
  "ToString n = (if n < 0 then CHR ''-'' # show_nat (nat (- n)) else show_nat (nat n))"

text \<open>
  \<^verbatim>\<open>parseInt(string)\<close> with no radix: leading white space is dropped, then one sign, then
  the prefix \<^verbatim>\<open>0x\<close> or \<^verbatim>\<open>0X\<close> (which makes the radix 16), and the longest run of digits of
  the radix is read; the rest of the string is ignored. With no digit the result is
  \<^verbatim>\<open>NaN\<close>, here \<open>None\<close>. The value read is exact here; it is the number JavaScript returns
  for every property name that \<^verbatim>\<open>ToString\<close> makes of a number. Strings are ASCII.
\<close>

definition whitespace :: "char list" where
  "whitespace = [CHR '' '', CHR 0x09, CHR 0x0A, CHR 0x0B, CHR 0x0C, CHR 0x0D]"

definition digit_table :: "(char \<times> nat) list" where
  "digit_table = zip ''0123456789abcdefABCDEF'' ([0..<16] @ [10..<16])"

definition digit_of :: "nat \<Rightarrow> char \<Rightarrow> nat option" where
  "digit_of radix c =
     (case map_of digit_table c of
        None \<Rightarrow> None
      | Some v \<Rightarrow> if v < radix then Some v else None)"

definition digits_value :: "nat \<Rightarrow> string \<Rightarrow> nat" where
  "digits_value radix Z =
     foldl (\<lambda>acc c. acc * radix + (case digit_of radix c of None \<Rightarrow> 0 | Some v \<Rightarrow> v)) 0 Z"

definition parseInt :: "string \<Rightarrow> int option" where
  "parseInt inputString =
     (let S = dropWhile (\<lambda>c. c \<in> set whitespace) inputString;
          negative = (S \<noteq> [] \<and> hd S = CHR ''-'');
          S1 = (if S \<noteq> [] \<and> (hd S = CHR ''+'' \<or> hd S = CHR ''-'') then tl S else S);
          hex = (take 2 S1 = ''0x'' \<or> take 2 S1 = ''0X'');
          R = (if hex then 16 else 10);
          S2 = (if hex then drop 2 S1 else S1);
          Z = takeWhile (\<lambda>c. digit_of R c \<noteq> None) S2
      in if Z = [] then None
         else Some ((if negative then - 1 else 1) * int (digits_value R Z)))"

text \<open>
  The property that \<^verbatim>\<open>updated[parseInt(episodeId)]\<close> names: \<^verbatim>\<open>'NaN'\<close>, or the decimal
  digits of the whole number. (A run of digits that reads as \<^verbatim>\<open>1e21\<close> or more does not occur
  in a property name that \<^verbatim>\<open>ToString\<close> makes of a number.)
\<close>

definition property_key :: "int option \<Rightarrow> string" where
  "property_key n = (case n of None \<Rightarrow> ''NaN'' | Some v \<Rightarrow> ToString v)"

definition addTask :: "string \<Rightarrow> TaskData \<Rightarrow> TaskData" where
  "addTask task td =
     (if task \<noteq> [] \<and> task \<notin> set (availableTasks td)
      then td\<lparr>availableTasks := availableTasks td @ [task]\<rparr>
      else td)"

text \<open>
  \<^verbatim>\<open>removeTask\<close> filters the label list, then walks \<^verbatim>\<open>Object.keys(updated)\<close> (the property
  names of the copy, taken before the walk). For each name it reads the property that
  \<^verbatim>\<open>parseInt\<close> of the name names, and deletes that property when its value is the label.
\<close>

definition purge_step :: "string \<Rightarrow> string \<Rightarrow> (string \<times> string) list \<Rightarrow> (string \<times> string) list" where
  "purge_step task episodeId updated =
     (let key = property_key (parseInt episodeId)
      in if map_of updated key = Some task then AList.delete key updated else updated)"

definition removeTask :: "string \<Rightarrow> TaskData \<Rightarrow> TaskData" where
  "removeTask task td =
     td\<lparr>availableTasks := filter (\<lambda>t. t \<noteq> task) (availableTasks td),
        episodeTasks := fold (purge_step task) (map fst (episodeTasks td)) (episodeTasks td)\<rparr>"

definition setEpisodeTask :: "string \<Rightarrow> string option \<Rightarrow> TaskData \<Rightarrow> TaskData" where
  "setEpisodeTask episodeId task td =
     (case task of
        None \<Rightarrow> td\<lparr>episodeTasks := AList.delete episodeId (episodeTasks td)\<rparr>
      | Some t \<Rightarrow> td\<lparr>episodeTasks := AList.update episodeId t (episodeTasks td)\<rparr>)"

definition getEpisodeTask :: "TaskData \<Rightarrow> string \<Rightarrow> string option" where
  "getEpisodeTask td episodeId = map_of (episodeTasks td) episodeId"

definition getDefaultTask :: "TaskData \<Rightarrow> string option" where
  "getDefaultTask td = (case availableTasks td of [] \<Rightarrow> None | t # _ \<Rightarrow> Some t)"

text \<open>
  The callers of the hook. \<^verbatim>\<open>handleAddTask\<close> of the task panel gets the trimmed text of the
  input field, and returns on an empty text or a label that exists. The digit keys 1 to 5
  of the sidebar assign the label at that index of \<^verbatim>\<open>availableTasks\<close> to the current
  episode. The select box of an episode row passes one of its options, which are the
  labels of \<^verbatim>\<open>availableTasks\<close>, or \<^verbatim>\<open>undefined\<close> when it is cleared. Closing a tag of
  the task panel calls \<^verbatim>\<open>removeTask\<close>.
\<close>

definition handleAddTask :: "string \<Rightarrow> TaskData \<Rightarrow> TaskData" where
  "handleAddTask trimmedTask td =
     (if trimmedTask = [] then td
      else if trimmedTask \<in> set (availableTasks td) then td
      else addTask trimmedTask td)"

definition digit_key :: "string \<Rightarrow> nat \<Rightarrow> TaskData \<Rightarrow> TaskData" where
  "digit_key currentEpisodeId taskIndex td =
     (if taskIndex < length (availableTasks td)
      then setEpisodeTask currentEpisodeId (Some (availableTasks td ! taskIndex)) td
      else td)"

definition select_change :: "string \<Rightarrow> nat option \<Rightarrow> TaskData \<Rightarrow> TaskData" where
  "select_change episodeId option td =
     (case option of
        None \<Rightarrow> setEpisodeTask episodeId None td
      | Some i \<Rightarrow>
          if i < length (availableTasks td)
          then setEpisodeTask episodeId (Some (availableTasks td ! i)) td
          else td)"

datatype task_action =
  Add_task string | Remove_task string | Digit_key string nat | Select_change string "nat option"

fun task_step :: "task_action \<Rightarrow> TaskData \<Rightarrow> TaskData" where
  "task_step (Add_task trimmedTask) td = handleAddTask trimmedTask td"
| "task_step (Remove_task task) td = removeTask task td"
| "task_step (Digit_key currentEpisodeId taskIndex) td = digit_key currentEpisodeId taskIndex td"
| "task_step (Select_change episodeId option) td = select_change episodeId option td"

text \<open>The state of the hook after a list of user actions, from the empty state it starts with.\<close>

definition session :: "task_action list \<Rightarrow> TaskData" where
  "session actions = fold task_step actions \<lparr>availableTasks = [], episodeTasks = []\<rparr>"

text \<open>
  The callback the viewer hands to \<^verbatim>\<open>createDatasetRequest\<close>: the hook's \<^verbatim>\<open>getEpisodeTask\<close>,
  which the request builder calls with the selected episode ids.
\<close>

definition episode_task :: "TaskData \<Rightarrow> int \<Rightarrow> string option" where
  "episode_task td ep = getEpisodeTask td (ToString ep)"

text \<open>
  A label is a string that is not empty. A state of the hook holds labels only when neither
  its label list nor any override is the empty string.
\<close>

definition labels_only :: "TaskData \<Rightarrow> bool" where
  "labels_only td = ([] \<notin> set (availableTasks td) \<and> (\<forall>k. getEpisodeTask td k \<noteq> Some []))"

section \<open>Building the creation request (utils/createDataset.ts)\<close>

text \<open>
  \<^verbatim>\<open>createDatasetRequest\<close> takes the four fields of \<^verbatim>\<open>CreateDatasetParams\<close>; the callback
  \<^verbatim>\<open>getEpisodeTask: (episodeId: number) => string | undefined\<close> is the argument \<open>getTask\<close>.
  It throws on an empty (falsy) dataset id, new repository id or selection. The loop keeps an
  episode only under \<^verbatim>\<open>if (task)\<close>, which is false for \<^verbatim>\<open>undefined\<close> and for the empty
  string. \<^verbatim>\<open>episode_index_task_map\<close> is \<^verbatim>\<open>undefined\<close> (here \<open>None\<close>) when the collected object
  has no key. The local object \<^verbatim>\<open>episodeTasks\<close> of the source is called \<open>collected\<close> here.
\<close>

datatype request_error = InvalidParameters string string nat

record CreateDatasetPayload =
  original_repo_id :: string
  new_repo_id :: string
  selected_episodes :: "int list"
  episode_index_task_map :: "(int \<times> string) list option"

definition collect_step :: "(int \<Rightarrow> string option) \<Rightarrow> int \<Rightarrow> (int \<times> string) list \<Rightarrow> (int \<times> string) list" where
  "collect_step getTask ep collected =
     (case getTask ep of
        None \<Rightarrow> collected
      | Some task \<Rightarrow> if task \<noteq> [] then AList.update ep task collected else collected)"

definition createDatasetRequest ::
  "string \<Rightarrow> string \<Rightarrow> int list \<Rightarrow> (int \<Rightarrow> string option) \<Rightarrow> request_error + CreateDatasetPayload" where
  "createDatasetRequest datasetId newRepoId selectedEpisodes getTask =
     (if datasetId = [] \<or> newRepoId = [] \<or> length selectedEpisodes = 0
      then Inl (InvalidParameters datasetId newRepoId (length selectedEpisodes))
      else
        let collected = fold (collect_step getTask) selectedEpisodes [];
            hasCustomEpisodeTasks = (length (map fst collected) > 0)
        in Inr \<lparr>original_repo_id = datasetId,
                 new_repo_id = newRepoId,
                 selected_episodes = selectedEpisodes,
                 episode_index_task_map = (if hasCustomEpisodeTasks then Some collected else None)\<rparr>)"

text \<open>An override the loop keeps: a label that is not the empty string.\<close>

definition labelled :: "(int \<Rightarrow> string option) \<Rightarrow> int \<Rightarrow> bool" where
  "labelled getTask ep = (case getTask ep of None \<Rightarrow> False | Some task \<Rightarrow> task \<noteq> [])"

section \<open>Video preloader (hooks/useVideoPreloader.ts)\<close>

text \<open>
  The ref \<^verbatim>\<open>preloadedVideos\<close> is a \<^verbatim>\<open>Map<number, HTMLVideoElement>\<close> that starts empty. It
  is kept as an association list in insertion order; its \<^verbatim>\<open>size\<close> is the length of the list,
  since \<^verbatim>\<open>set\<close> is only called for a key the map does not have. A video element is the
  three properties the hook assigns. The window size \<^verbatim>\<open>preloadCount\<close> is a natural number,
  episode ids and the episode count are integers.
\<close>

record Video =
  src :: string
  preload :: string
  muted :: bool

type_synonym PreloadedVideos = "(int \<times> Video) list"

definition preloadVideo :: "(int \<Rightarrow> string option) \<Rightarrow> int \<Rightarrow> PreloadedVideos \<Rightarrow> PreloadedVideos" where
  "preloadVideo getVideoUrl episodeId videos =
     (if map_of videos episodeId \<noteq> None then videos
      else case getVideoUrl episodeId of
             None \<Rightarrow> videos
           | Some videoUrl \<Rightarrow>
               if videoUrl = [] then videos
               else videos @ [(episodeId, \<lparr>src = videoUrl, preload = ''auto'', muted = True\<rparr>)])"

text \<open>
  The two \<^verbatim>\<open>for\<close> loops run \<open>i\<close> from 1 to \<^verbatim>\<open>preloadCount\<close>. Their state is the set
  \<^verbatim>\<open>currentPreloaded\<close> (a list without repetitions) and the map.
\<close>

definition preload_previous ::
  "int \<Rightarrow> (int \<Rightarrow> string option) \<Rightarrow> nat \<Rightarrow> int list \<times> PreloadedVideos \<Rightarrow> int list \<times> PreloadedVideos" where
  "preload_previous currentEpisodeId getVideoUrl i st =
     (let prevId = currentEpisodeId - int i
      in if prevId \<ge> 0
         then (List.insert prevId (fst st), preloadVideo getVideoUrl prevId (snd st))
         else st)"

definition preload_next ::
  "int \<Rightarrow> int \<Rightarrow> (int \<Rightarrow> string option) \<Rightarrow> nat \<Rightarrow> int list \<times> PreloadedVideos \<Rightarrow> int list \<times> PreloadedVideos" where
  "preload_next currentEpisodeId totalEpisodes getVideoUrl i st =
     (let nextId = currentEpisodeId + int i
      in if nextId < totalEpisodes
         then (List.insert nextId (fst st), preloadVideo getVideoUrl nextId (snd st))
         else st)"

text \<open>
  The closing \<^verbatim>\<open>forEach\<close> deletes every entry whose key is neither in \<^verbatim>\<open>currentPreloaded\<close>
  nor the current episode id.
\<close>

definition evict :: "int \<Rightarrow> int list \<Rightarrow> PreloadedVideos \<Rightarrow> PreloadedVideos" where
  "evict currentEpisodeId currentPreloaded videos =
     filter (\<lambda>entry. \<not> (fst entry \<notin> set currentPreloaded \<and> fst entry \<noteq> currentEpisodeId)) videos"

definition preloader_effect ::
  "int \<Rightarrow> int \<Rightarrow> (int \<Rightarrow> string option) \<Rightarrow> nat \<Rightarrow> PreloadedVideos \<Rightarrow> PreloadedVideos" where
  "preloader_effect currentEpisodeId totalEpisodes getVideoUrl preloadCount videos =
     (let st1 = fold (preload_previous currentEpisodeId getVideoUrl) [1..<Suc preloadCount] ([], videos);
          st2 = fold (preload_next currentEpisodeId totalEpisodes getVideoUrl) [1..<Suc preloadCount] st1
      in evict currentEpisodeId (fst st2) (snd st2))"

text \<open>
  A navigation is one run of the effect with the values of its four dependencies; a
  session is the list of runs, applied to the map in order.
\<close>

type_synonym navigation = "int \<times> int \<times> (int \<Rightarrow> string option) \<times> nat"

fun run_effect :: "navigation \<Rightarrow> PreloadedVideos \<Rightarrow> PreloadedVideos" where
  "run_effect (currentEpisodeId, totalEpisodes, getVideoUrl, preloadCount) videos =
     preloader_effect currentEpisodeId totalEpisodes getVideoUrl preloadCount videos"

text \<open>The neighbours of the current episode: at most \<open>n\<close> before it and at most \<open>n\<close> after it.\<close>

definition in_window :: "int \<Rightarrow> int \<Rightarrow> nat \<Rightarrow> int \<Rightarrow> bool" where
  "in_window currentEpisodeId totalEpisodes n e =
     ((currentEpisodeId - int n \<le> e \<and> e < currentEpisodeId \<and> 0 \<le> e) \<or>
      (currentEpisodeId < e \<and> e \<le> currentEpisodeId + int n \<and> e < totalEpisodes))"

section \<open>Waiting for a dataset to load (services/api.ts)\<close>

text \<open>
  \<^verbatim>\<open>DatasetLoadingStatus\<close> (types) has a status out of four strings, an optional progress
  fraction and an optional message; the progress fraction is not read by the code below and
  is left out. A request either resolves with a status or rejects (a network or HTTP error
  of the client); \<^verbatim>\<open>await\<close> on a rejected request throws.
\<close>

datatype loading_state = Loading | Ready | Error | Not_loaded

record DatasetLoadingStatus =
  status :: loading_state
  message :: "string option"

datatype 'a reply = Rejected | Resolved 'a

datatype wait_error = Dataset_loading_failed string | Dataset_loading_timeout | Request_rejected

text \<open>
  What one call of \<^verbatim>\<open>waitForDataset\<close> does: how it ends (\<open>Inr ()\<close> for a normal return,
  \<open>Inl\<close> for a thrown error); its status requests and its \<^verbatim>\<open>setTimeout\<close> waits (with their
  length in milliseconds), in the order they happen; the statuses it passed to
  \<^verbatim>\<open>onProgress\<close>; and the lines on the console when it ends.
\<close>

datatype wait_event = Request | Sleep nat

record WaitOutcome =
  result :: "wait_error + unit"
  timeline :: "wait_event list"
  reported :: "DatasetLoadingStatus list"
  logged :: "string list"

definition pollInterval :: nat where
  "pollInterval = 1000"

definition maxRetries :: nat where
  "maxRetries = 300"

text \<open>\<^verbatim>\<open>status.message || 'Dataset loading failed'\<close>\<close>

definition failure_message :: "string option \<Rightarrow> string" where
  "failure_message m = (case m of None \<Rightarrow> ''Dataset loading failed''
                        | Some text \<Rightarrow> if text = [] then ''Dataset loading failed'' else text)"

text \<open>
  The \<^verbatim>\<open>while\<close> loop. The argument \<open>getDatasetStatus\<close> gives the outcome of each request
  by its position: the loop makes one request per iteration, so iteration \<open>retries\<close> gets
  outcome number \<open>retries\<close>. The request is not inside any \<^verbatim>\<open>try\<close>, and no branch writes
  to the console. The arguments \<open>events\<close>, \<open>seen\<close> and \<open>lines\<close> are what has happened, what
  has been reported and what is on the console so far.
\<close>

function waitForDataset_from ::
  "(nat \<Rightarrow> DatasetLoadingStatus reply) \<Rightarrow> nat \<Rightarrow> wait_event list \<Rightarrow> DatasetLoadingStatus list
     \<Rightarrow> string list \<Rightarrow> WaitOutcome" where
  "waitForDataset_from getDatasetStatus retries events seen lines =
     (if retries < maxRetries then
        (case getDatasetStatus retries of
           Rejected \<Rightarrow>
             \<lparr>result = Inl Request_rejected, timeline = events @ [Request],
              reported = seen, logged = lines\<rparr>
         | Resolved st \<Rightarrow>
             if status st = Ready then
               \<lparr>result = Inr (), timeline = events @ [Request],
                reported = seen @ [st], logged = lines\<rparr>
             else if status st = Error then
               \<lparr>result = Inl (Dataset_loading_failed (failure_message (message st))),
                timeline = events @ [Request],
                reported = seen @ [st], logged = lines\<rparr>
             else waitForDataset_from getDatasetStatus (retries + 1)
                    (events @ [Request, Sleep pollInterval]) (seen @ [st]) lines)
      else
        \<lparr>result = Inl Dataset_loading_timeout, timeline = events,
         reported = seen, logged = lines\<rparr>)"
  by pat_completeness auto
termination
  by (relation "measure (\<lambda>(getDatasetStatus, retries, events, seen, lines). maxRetries - retries)") auto

definition waitForDataset :: "(nat \<Rightarrow> DatasetLoadingStatus reply) \<Rightarrow> string list \<Rightarrow> WaitOutcome" where
  "waitForDataset getDatasetStatus lines = waitForDataset_from getDatasetStatus 0 [] [] lines"

text \<open>The number of status requests of a call, and the milliseconds it waited.\<close>

definition requests :: "WaitOutcome \<Rightarrow> nat" where
  "requests out = count_list (timeline out) Request"

definition slept :: "WaitOutcome \<Rightarrow> nat" where
  "slept out = sum_list (map (\<lambda>e. case e of Request \<Rightarrow> 0 | Sleep ms \<Rightarrow> ms) (timeline out))"

text \<open>One request and the wait after it, \<open>k\<close> times: polling at the interval.\<close>

definition polled :: "nat \<Rightarrow> wait_event list" where
  "polled k = concat (replicate k [Request, Sleep 1000])"

text \<open>A request outcome after which the loop goes on: a status that is neither ready nor error.\<close>

definition still_loading :: "DatasetLoadingStatus reply \<Rightarrow> bool" where
  "still_loading r = (case r of Rejected \<Rightarrow> False
                       | Resolved st \<Rightarrow> status st \<noteq> Ready \<and> status st \<noteq> Error)"

definition reports_ready :: "DatasetLoadingStatus reply \<Rightarrow> bool" where
  "reports_ready r = (case r of Rejected \<Rightarrow> False | Resolved st \<Rightarrow> status st = Ready)"

text \<open>How the call ends at the first request outcome that is not a loading status.\<close>

definition decided :: "DatasetLoadingStatus reply \<Rightarrow> wait_error + unit" where
  "decided r =
     (case r of
        Rejected \<Rightarrow> Inl Request_rejected
      | Resolved st \<Rightarrow>
          if status st = Ready then Inr ()
          else Inl (Dataset_loading_failed (failure_message (message st))))"

text \<open>The loop equation is applied by hand, one iteration at a time.\<close>

declare waitForDataset_from.simps [simp del]

text \<open>A scripted server: the outcomes of the first requests, then one outcome for all later ones.\<close>

definition script :: "'a reply list \<Rightarrow> 'a reply \<Rightarrow> nat \<Rightarrow> 'a reply" where
  "script rs r k = (if k < length rs then rs ! k else r)"

section \<open>Polling the creation status (DatasetViewer)\<close>

text \<open>
  \<^verbatim>\<open>CreateTaskStatus\<close> (types), without its progress fraction. The part of the component
  state that the polling effect reads or writes: the task id that drives the effect, the
  last status, the modal flag, the form field, the selection store of the hook, the lines
  written by \<^verbatim>\<open>console.error\<close>, the armed \<^verbatim>\<open>setInterval\<close> timer (its period in milliseconds
  and the task id its callback polls), and the task ids of the status requests sent so far.
\<close>

datatype job_state = Pending | Running | Completed | Failed

record CreateTaskStatus =
  task_id :: string
  status :: job_state
  message :: "string option"
  new_repo_id :: "string option"

record DatasetViewer =
  creationTaskId :: "string option"
  creationStatus :: "CreateTaskStatus option"
  isCreateModalVisible :: bool
  form_new_repo_id :: string
  selection :: SelectedEpisodesState
  console :: "string list"
  interval :: "(nat \<times> string) option"
  requested :: "string list"

text \<open>
  \<^verbatim>\<open>pollStatus\<close> is asynchronous: it sends the request, and continues when the request
  settles. A rejected request is caught and logged, and nothing else happens. A resolved
  one sets the status; \<^verbatim>\<open>completed\<close> clears the task id, hides the create modal, resets the
  form and clears the selection; \<^verbatim>\<open>failed\<close> clears the task id.
\<close>

definition pollStatus_request :: "string \<Rightarrow> DatasetViewer \<Rightarrow> DatasetViewer" where
  "pollStatus_request taskId v = v\<lparr>requested := requested v @ [taskId]\<rparr>"

definition pollStatus_settled :: "string \<Rightarrow> CreateTaskStatus reply \<Rightarrow> DatasetViewer \<Rightarrow> DatasetViewer" where
  "pollStatus_settled datasetId r v =
     (case r of
        Rejected \<Rightarrow> v\<lparr>console := console v @ [''Error polling creation status:'']\<rparr>
      | Resolved st \<Rightarrow>
          let v1 = v\<lparr>creationStatus := Some st\<rparr>
          in if status st = Completed then
               v1\<lparr>creationTaskId := None,
                  isCreateModalVisible := False,
                  form_new_repo_id := [],
                  selection := clearSelection (Some datasetId) (selection v1)\<rparr>
             else if status st = Failed then v1\<lparr>creationTaskId := None\<rparr>
             else v1)"

text \<open>
  The effect body returns at once without a task id; otherwise it arms the interval with
  period 2000 and calls \<^verbatim>\<open>pollStatus()\<close> for the initial poll. Its cleanup clears the interval.
\<close>

definition creationPollInterval :: nat where
  "creationPollInterval = 2000"

definition poll_effect :: "DatasetViewer \<Rightarrow> DatasetViewer" where
  "poll_effect v =
     (case creationTaskId v of
        None \<Rightarrow> v
      | Some taskId \<Rightarrow>
          if taskId = [] then v
          else pollStatus_request taskId (v\<lparr>interval := Some (creationPollInterval, taskId)\<rparr>))"

definition poll_cleanup :: "DatasetViewer \<Rightarrow> DatasetViewer" where
  "poll_cleanup v = v\<lparr>interval := None\<rparr>"

text \<open>
  A render. The effect's dependency list is \<^verbatim>\<open>[creationTaskId, form, clearSelection]\<close>.
  \<^verbatim>\<open>clearSelection\<close> is an arrow function that \<^verbatim>\<open>useSelectedEpisodes\<close> creates in its body
  on every call, without \<^verbatim>\<open>useCallback\<close>, so each render passes a new function and the list
  differs from the one of the last run: after every render the cleanup of the last run and
  then the effect body run.
\<close>

definition render :: "DatasetViewer \<Rightarrow> DatasetViewer" where
  "render v = poll_effect (poll_cleanup v)"

text \<open>
  What can happen to the mounted component while it polls: the interval fires and its
  callback sends a request; a request settles (a resolved one sets state with a new status
  object, which renders the component; a rejected one sets no state); the component unmounts.
\<close>

datatype poll_event = Tick | Settled "CreateTaskStatus reply" | Unmount

fun poll_step :: "string \<Rightarrow> poll_event \<Rightarrow> DatasetViewer \<Rightarrow> DatasetViewer" where
  "poll_step datasetId Tick v =
     (case interval v of None \<Rightarrow> v | Some (period, taskId) \<Rightarrow> pollStatus_request taskId v)"
| "poll_step datasetId (Settled Rejected) v = pollStatus_settled datasetId Rejected v"
| "poll_step datasetId (Settled (Resolved st)) v = render (pollStatus_settled datasetId (Resolved st) v)"
| "poll_step datasetId Unmount v = poll_cleanup v"

text \<open>
  The component when a creation has started. The success handler of the create mutation
  calls \<^verbatim>\<open>setCreationTaskId(task_id)\<close>, and the component renders; the mutation then
  reports its own success state to the component that holds it, and the component renders
  once more.
\<close>

definition creation_started :: "string \<Rightarrow> DatasetViewer" where
  "creation_started taskId =
     render (render \<lparr>creationTaskId = Some taskId, creationStatus = None,
                     isCreateModalVisible = True, form_new_repo_id = ''ns/new'',
                     selection = Map.empty, console = [],
                     interval = None, requested = []\<rparr>)"

chapter \<open>Properties\<close>

section \<open>Properties of the selection store\<close>

lemma stored_upd: "stored (prev(d \<mapsto> l)) d' = (if d' = d then l else stored prev d')"
  by (simp add: stored_def)


lemma member_toggleEpisode:
  assumes "d \<noteq> []"
  shows "e \<in> set (stored (toggleEpisode (Some d) x prev) d) \<longleftrightarrow>
         (if e = x then e \<notin> set (stored prev d) else e \<in> set (stored prev d))"
proof (cases "x \<in> set (stored prev d)")
  case True
  then have "stored (toggleEpisode (Some d) x prev) d = filter (\<lambda>id. id \<noteq> x) (stored prev d)"
    using assms by (simp add: toggleEpisode_def Let_def stored_upd)
  with True show ?thesis by auto
next
  case False
  then have "stored (toggleEpisode (Some d) x prev) d = sort (stored prev d @ [x])"
    using assms by (simp add: toggleEpisode_def Let_def stored_upd)
  with False show ?thesis by auto
qed

lemma member_fold_toggleEpisode:
  assumes "d \<noteq> []"
  shows "e \<in> set (stored (fold (toggleEpisode (Some d)) es prev) d) \<longleftrightarrow>
         (e \<in> set (stored prev d)) \<noteq> odd (count_list es e)"
proof (induction es arbitrary: prev)
  case Nil
  show ?case by simp
next
  case (Cons x es)
  show ?case
    using Cons.IH [of "toggleEpisode (Some d) x prev"] member_toggleEpisode [OF assms, of e x prev]
    by (cases "e = x") auto
qed

lemma toggle_parity_whole_ids:
  assumes "d \<noteq> []" and "stored s0 d = []"
  shows "isSelected (Some d) (fold (toggleEpisode (Some d)) es s0) e \<longleftrightarrow> odd (count_list es e)"
  using member_fold_toggleEpisode [OF assms(1), of e es s0] assms
  by (simp add: isSelected_def)

subsection \<open>Whole-number ids and \<^verbatim>\<open>NaN\<close>\<close>

lemma insert_number_Whole:
  "insert_number (Whole x) (map Whole ys) = map Whole (insort x ys)"
  by (induction ys) (simp_all add: sort_compare_def compareFn_def)

lemma sort_numbers_Whole:
  "sort_numbers (map Whole xs) = map Whole (sort xs)"
  by (induction xs) (simp_all add: sort_numbers_def sort_key_def insert_number_Whole)

lemma filter_strict_equal_Whole:
  "filter (\<lambda>id. \<not> strict_equal id (Whole e)) (map Whole xs) = map Whole (filter (\<lambda>id. id \<noteq> e) xs)"
  by (induction xs) (simp_all add: strict_equal_def)

lemma stored_as_numbers:
  "stored_numbers (as_numbers s) d = map Whole (stored s d)"
  by (simp add: stored_numbers_def as_numbers_def stored_def split: option.splits)

lemma as_numbers_upd:
  "as_numbers (s(d \<mapsto> l)) = (as_numbers s)(d \<mapsto> map Whole l)"
  by (rule ext) (simp add: as_numbers_def)

text \<open>On whole-number ids the updater over numbers is \<open>toggleEpisode\<close>.\<close>

lemma toggleEpisode_number_Whole:
  "toggleEpisode_number datasetId (Whole e) (as_numbers s) = as_numbers (toggleEpisode datasetId e s)"
proof (cases datasetId)
  case None
  then show ?thesis
    by (simp add: toggleEpisode_number_def toggleEpisode_def)
next
  case (Some d)
  have mem: "Whole e \<in> set (map Whole (stored s d)) \<longleftrightarrow> e \<in> set (stored s d)"
    by auto
  show ?thesis
    unfolding Some toggleEpisode_number_def toggleEpisode_def
    by (simp add: Let_def stored_as_numbers mem as_numbers_upd filter_strict_equal_Whole
        sort_numbers_Whole [of "stored s d @ [e]", simplified] del: set_map)
qed

text \<open>
  Claim C2, at the input where the code departs from it. The route
  \<^verbatim>\<open>/ns/ds/episode/abc\<close> makes the current episode id \<^verbatim>\<open>NaN\<close>, and Ctrl+K is pressed
  twice. The first toggle stores \<^verbatim>\<open>[NaN]\<close>. At the second, \<^verbatim>\<open>includes\<close> finds \<^verbatim>\<open>NaN\<close>, but
  the filter \<^verbatim>\<open>id !== episodeId\<close> keeps it: the id has been toggled an even number of
  times and \<^verbatim>\<open>isSelected\<close> is true.
\<close>

theorem toggle_parity_fails_at_NaN:
  "even (count_list [NaN, NaN] NaN) \<and>
   stored_numbers (fold (toggleEpisode_number (Some ''ns/ds'')) [NaN, NaN] Map.empty) ''ns/ds'' = [NaN] \<and>
   isSelected_number (Some ''ns/ds'') (fold (toggleEpisode_number (Some ''ns/ds'')) [NaN, NaN] Map.empty) NaN"
  by (simp add: toggleEpisode_number_def isSelected_number_def stored_numbers_def
      sort_numbers_def strict_equal_def Let_def)


theorem undefined_dataset_inert:
  "toggleEpisode None episodeId s = s \<and>
   clearSelection None s = s \<and>
   selectAll None episodeIds s = s \<and>
   \<not> isSelected None s episodeId \<and>
   getSelectedForDataset None s = [] \<and>
   selectedCount None s = 0"
  by (simp add: toggleEpisode_def clearSelection_def selectAll_def isSelected_def
      getSelectedForDataset_def selectedCount_def)

theorem undefined_dataset_inert_witness:
  "toggleEpisode None 4 [''ns/ds'' \<mapsto> [1, 4]] ''ns/ds'' = Some [1, 4] \<and>
   clearSelection None [''ns/ds'' \<mapsto> [1, 4]] ''ns/ds'' = Some [1, 4] \<and>
   selectAll None [7, 8] [''ns/ds'' \<mapsto> [1, 4]] ''ns/ds'' = Some [1, 4] \<and>
   \<not> isSelected None [''ns/ds'' \<mapsto> [1, 4]] 4 \<and>
   getSelectedForDataset None [''ns/ds'' \<mapsto> [1, 4]] = [] \<and>
   selectedCount None [''ns/ds'' \<mapsto> [1, 4]] = 0"
  using undefined_dataset_inert [of 4 "[''ns/ds'' \<mapsto> [1, 4]]" "[7, 8]"]
  by simp

text \<open>
  Claim C7. An operation invoked with active dataset id \<open>datasetId\<close> leaves the entry of
  every other dataset id \<open>d'\<close> as it was (an absent entry stays absent, a stored list stays
  the same list).
\<close>

theorem other_datasets_unchanged:
  assumes "datasetId \<noteq> Some d'"
  shows "toggleEpisode datasetId episodeId s d' = s d' \<and>
         clearSelection datasetId s d' = s d' \<and>
         selectAll datasetId episodeIds s d' = s d'"
  using assms
  by (cases datasetId)
     (simp_all add: toggleEpisode_def clearSelection_def selectAll_def Let_def)

theorem other_datasets_unchanged_witness:
  "toggleEpisode (Some ''a/x'') 2 [''a/x'' \<mapsto> [1], ''b/y'' \<mapsto> [2, 9]] ''b/y'' = Some [2, 9] \<and>
   clearSelection (Some ''a/x'') [''a/x'' \<mapsto> [1], ''b/y'' \<mapsto> [2, 9]] ''b/y'' = Some [2, 9] \<and>
   selectAll (Some ''a/x'') [5, 3] [''a/x'' \<mapsto> [1], ''b/y'' \<mapsto> [2, 9]] ''b/y'' = Some [2, 9]"
  using other_datasets_unchanged
          [of "Some ''a/x''" "''b/y''" 2 "[''a/x'' \<mapsto> [1], ''b/y'' \<mapsto> [2, 9]]" "[5, 3]"]
  by simp

subsection \<open>The stored lists stay sorted and duplicate-free\<close>






section \<open>Properties of the task tagging store\<close>

subsection \<open>Reading a whole-number property name back\<close>

lemma digit_of_decimal:
  assumes "d < 10"
  shows "digit_of 10 (''0123456789'' ! d) = Some d"
proof -
  from assms have "d \<in> set [0..<10]"
    by simp
  then show ?thesis
    by (auto simp: upt_rec digit_of_def digit_table_def)
qed

lemma decimal_not_marker:
  assumes "d < 10"
  shows "''0123456789'' ! d \<notin> set whitespace"
    and "''0123456789'' ! d \<noteq> CHR ''-''" and "''0123456789'' ! d \<noteq> CHR ''+''"
    and "''0123456789'' ! d \<noteq> CHR ''x''" and "''0123456789'' ! d \<noteq> CHR ''X''"
proof -
  from assms have "d \<in> set [0..<10]"
    by simp
  then have "''0123456789'' ! d \<notin> set whitespace \<and>
      ''0123456789'' ! d \<noteq> CHR ''-'' \<and> ''0123456789'' ! d \<noteq> CHR ''+'' \<and>
      ''0123456789'' ! d \<noteq> CHR ''x'' \<and> ''0123456789'' ! d \<noteq> CHR ''X''"
    by (auto simp: upt_rec whitespace_def)
  then show "''0123456789'' ! d \<notin> set whitespace"
    and "''0123456789'' ! d \<noteq> CHR ''-''" and "''0123456789'' ! d \<noteq> CHR ''+''"
    and "''0123456789'' ! d \<noteq> CHR ''x''" and "''0123456789'' ! d \<noteq> CHR ''X''"
    by blast+
qed

lemma show_nat_digits:
  "show_nat n \<noteq> [] \<and> (\<forall>c \<in> set (show_nat n). \<exists>d < 10. c = ''0123456789'' ! d)"
proof (induction n rule: show_nat.induct)
  case (1 n)
  show ?case
  proof (cases "n < 10")
    case True
    then show ?thesis
      by (subst (1 2) show_nat.simps) auto
  next
    case False
    have "n mod 10 < 10" by simp
    then have "\<exists>d < 10. ''0123456789'' ! (n mod 10) = ''0123456789'' ! d"
      by blast
    with False "1" show ?thesis
      by (subst (1 2) show_nat.simps) auto
  qed
qed

lemma digits_value_snoc:
  "digits_value r (Z @ [c]) =
     digits_value r Z * r + (case digit_of r c of None \<Rightarrow> 0 | Some v \<Rightarrow> v)"
  by (simp add: digits_value_def)

lemma digits_value_show_nat:
  "digits_value 10 (show_nat n) = n"
proof (induction n rule: show_nat.induct)
  case (1 n)
  show ?case
  proof (cases "n < 10")
    case True
    then show ?thesis
      by (subst show_nat.simps) (simp add: digits_value_def digit_of_decimal)
  next
    case False
    have "n mod 10 < 10" by simp
    then have "digit_of 10 (''0123456789'' ! (n mod 10)) = Some (n mod 10)"
      by (rule digit_of_decimal)
    with False "1" show ?thesis
      by (subst show_nat.simps) (simp add: digits_value_snoc)
  qed
qed

lemma parseInt_digits:
  assumes "Z \<noteq> []" and "\<forall>c \<in> set Z. \<exists>d < 10. c = ''0123456789'' ! d"
  shows "parseInt Z = Some (int (digits_value 10 Z))"
    and "parseInt (CHR ''-'' # Z) = Some (- int (digits_value 10 Z))"
proof -
  have dig: "\<exists>d < 10. x = ''0123456789'' ! d" if "x \<in> set Z" for x
    using assms(2) that by blast
  have "hd Z \<in> set Z"
    using assms(1) by simp
  then obtain d0 where "d0 < 10" "hd Z = ''0123456789'' ! d0"
    using dig [of "hd Z"] by blast
  then have first: "hd Z \<notin> set whitespace" "hd Z \<noteq> CHR ''-''" "hd Z \<noteq> CHR ''+''"
    using decimal_not_marker(1,2,3) [of d0] by simp_all
  have second: "b \<noteq> CHR ''x'' \<and> b \<noteq> CHR ''X''" if "Z = a # b # bs" for a b bs
    using dig [of b] decimal_not_marker(4,5) that by auto
  have nohex: "take 2 Z \<noteq> ''0x''" "take 2 Z \<noteq> ''0X''"
    using second by (cases Z; cases "tl Z"; auto)+
  have "\<forall>c \<in> set Z. \<exists>y. digit_of 10 c = Some y"
    using dig digit_of_decimal by fastforce
  then have run: "takeWhile (\<lambda>c. \<exists>y. digit_of 10 c = Some y) Z = Z"
    by (simp only: takeWhile_eq_all_conv)
  have keep: "dropWhile (\<lambda>c. c \<in> set whitespace) Z = Z"
    using first(1) assms(1) by (cases Z) auto
  have minus: "dropWhile (\<lambda>c. c \<in> set whitespace) (CHR ''-'' # Z) = CHR ''-'' # Z"
    by (simp add: whitespace_def)
  show "parseInt Z = Some (int (digits_value 10 Z))"
    unfolding parseInt_def keep Let_def
    using first nohex assms(1) by (simp add: run)
  show "parseInt (CHR ''-'' # Z) = Some (- int (digits_value 10 Z))"
    unfolding parseInt_def minus Let_def
    using nohex assms(1) by (simp add: run)
qed

lemma parseInt_ToString:
  "parseInt (ToString n) = Some n"
proof (cases "n < 0")
  case True
  then show ?thesis
    using parseInt_digits(2) [of "show_nat (nat (- n))"] show_nat_digits [of "nat (- n)"]
    by (simp add: ToString_def digits_value_show_nat)
next
  case False
  then show ?thesis
    using parseInt_digits(1) [of "show_nat (nat n)"] show_nat_digits [of "nat n"]
    by (simp add: ToString_def digits_value_show_nat)
qed

lemma read_back_whole:
  "property_key (parseInt (ToString n)) = ToString n"
  by (simp add: parseInt_ToString property_key_def)

subsection \<open>What \<^verbatim>\<open>removeTask\<close> purges\<close>

lemma map_of_purge_step:
  "map_of (purge_step task k updated) e =
     (if e = property_key (parseInt k) \<and> map_of updated e = Some task then None
      else map_of updated e)"
  by (auto simp: purge_step_def Let_def delete_conv')

text \<open>
  What the walk does, for every object: an override equal to the label is deleted exactly
  when its property name is the one read back from some property name of the object.
\<close>

lemma map_of_fold_purge:
  "map_of (fold (purge_step task) ks updated) e =
     (if e \<in> (\<lambda>k. property_key (parseInt k)) ` set ks \<and> map_of updated e = Some task then None
      else map_of updated e)"
proof (induction ks arbitrary: updated)
  case Nil
  show ?case by simp
next
  case (Cons k ks)
  show ?case
    using Cons.IH [of "purge_step task k updated"]
    by (auto simp: map_of_purge_step)
qed

lemma getEpisodeTask_removeTask:
  "getEpisodeTask (removeTask L td) e =
     (if e \<in> (\<lambda>k. property_key (parseInt k)) ` fst ` set (episodeTasks td) \<and>
         getEpisodeTask td e = Some L
      then None else getEpisodeTask td e)"
  by (simp add: getEpisodeTask_def removeTask_def map_of_fold_purge)

text \<open>
  Where every override is stored under a whole-number episode id below \<^verbatim>\<open>1e21\<close> in size,
  \<^verbatim>\<open>removeTask\<close> deletes the overrides equal to the label and leaves the others.
\<close>

lemma removeTask_purges_whole_ids:
  assumes "\<forall>k \<in> fst ` set (episodeTasks td). \<exists>n. \<bar>n\<bar> < 10 ^ 21 \<and> k = ToString n"
  shows "L \<notin> set (availableTasks (removeTask L td)) \<and>
         getEpisodeTask (removeTask L td) e =
           (if getEpisodeTask td e = Some L then None else getEpisodeTask td e)"
proof -
  have same: "property_key (parseInt k) = k" if "k \<in> fst ` set (episodeTasks td)" for k
    using assms that read_back_whole by auto
  have "e \<in> (\<lambda>k. property_key (parseInt k)) ` fst ` set (episodeTasks td)"
    if "getEpisodeTask td e = Some L"
  proof -
    from that have "e \<in> fst ` set (episodeTasks td)"
      by (metis getEpisodeTask_def map_of_eq_None_iff option.distinct(1))
    then show ?thesis
      using same [of e] by force
  qed
  then have "getEpisodeTask (removeTask L td) e =
      (if getEpisodeTask td e = Some L then None else getEpisodeTask td e)"
    by (simp add: getEpisodeTask_removeTask)
  then show ?thesis
    by (simp add: removeTask_def)
qed

text \<open>
  Claim C3, at the input where the code departs from it. The label \<^verbatim>\<open>pick\<close> is added, the
  jump field sets the current episode id to 2.5 and the digit key 1 assigns \<^verbatim>\<open>pick\<close> to
  it: the override is the property \<^verbatim>\<open>'2.5'\<close>. \<^verbatim>\<open>removeTask('pick')\<close> reads the property
  \<^verbatim>\<open>parseInt('2.5')\<close>, which is 2, finds nothing there and deletes nothing: the label is
  gone from the list and the override still maps to it. The same happens to an override
  of episode \<^verbatim>\<open>1e21\<close>, whose property \<^verbatim>\<open>'1e+21'\<close> is read back as 1.
\<close>

theorem removeTask_keeps_fractional_id:
  "session [Add_task ''pick'', Digit_key ''2.5'' 0] =
     \<lparr>availableTasks = [''pick''], episodeTasks = [(''2.5'', ''pick'')]\<rparr> \<and>
   removeTask ''pick'' (session [Add_task ''pick'', Digit_key ''2.5'' 0]) =
     \<lparr>availableTasks = [], episodeTasks = [(''2.5'', ''pick'')]\<rparr> \<and>
   getEpisodeTask (removeTask ''pick'' (session [Add_task ''pick'', Digit_key ''2.5'' 0])) ''2.5'' =
     Some ''pick'' \<and>
   getEpisodeTask (removeTask ''pick''
       \<lparr>availableTasks = [''pick''], episodeTasks = [(''1e+21'', ''pick'')]\<rparr>) ''1e+21'' =
     Some ''pick''"
  by (simp add: session_def handleAddTask_def addTask_def digit_key_def setEpisodeTask_def
      removeTask_def purge_step_def getEpisodeTask_def property_key_def parseInt_def
      whitespace_def digit_of_def digit_table_def digits_value_def ToString_def
      show_nat.simps [of 2] show_nat.simps [of 1] show_nat.simps [of "Suc 0"] Let_def upt_rec)

section \<open>Properties of the creation request\<close>

lemma map_of_collect_step:
  "map_of (collect_step getTask x acc) ep =
     (if ep = x \<and> labelled getTask ep then getTask ep else map_of acc ep)"
  by (auto simp: collect_step_def labelled_def update_conv' split: option.splits)

lemma map_of_fold_collect:
  "map_of (fold (collect_step getTask) eps acc) ep =
     (if ep \<in> set eps \<and> labelled getTask ep then getTask ep else map_of acc ep)"
proof (induction eps arbitrary: acc)
  case Nil
  show ?case by simp
next
  case (Cons x eps)
  show ?case
    using Cons.IH [of "collect_step getTask x acc"]
    by (auto simp: map_of_collect_step)
qed

lemma collected_empty_iff:
  "fold (collect_step getTask) eps [] = [] \<longleftrightarrow> (\<forall>ep \<in> set eps. \<not> labelled getTask ep)"
proof
  assume "fold (collect_step getTask) eps [] = []"
  then have none: "map_of (fold (collect_step getTask) eps []) ep = None" for ep
    by simp
  show "\<forall>ep \<in> set eps. \<not> labelled getTask ep"
  proof
    fix ep
    assume "ep \<in> set eps"
    then have "labelled getTask ep \<Longrightarrow> getTask ep = None"
      using none [of ep] by (simp add: map_of_fold_collect)
    then show "\<not> labelled getTask ep"
      by (auto simp: labelled_def)
  qed
next
  assume none: "\<forall>ep \<in> set eps. \<not> labelled getTask ep"
  have "map_of (fold (collect_step getTask) eps []) = Map.empty"
    using none by (intro ext) (auto simp: map_of_fold_collect)
  then show "fold (collect_step getTask) eps [] = []"
    by simp
qed

lemma createDatasetRequest_returns:
  assumes "datasetId \<noteq> []" and "newRepoId \<noteq> []" and "selectedEpisodes \<noteq> []"
  shows "createDatasetRequest datasetId newRepoId selectedEpisodes getTask =
           Inr \<lparr>original_repo_id = datasetId,
                new_repo_id = newRepoId,
                selected_episodes = selectedEpisodes,
                episode_index_task_map =
                  (if \<exists>ep \<in> set selectedEpisodes. labelled getTask ep
                   then Some (fold (collect_step getTask) selectedEpisodes [])
                   else None)\<rparr>"
proof -
  have "(length (map fst (fold (collect_step getTask) selectedEpisodes [])) > 0) =
        (\<exists>ep \<in> set selectedEpisodes. labelled getTask ep)"
    using collected_empty_iff [of getTask selectedEpisodes] by auto
  with assms show ?thesis
    by (simp add: createDatasetRequest_def Let_def)
qed

text \<open>
  Claim C1, as amended. A call with a non-empty selection throws only when the dataset id or
  the new repository id is empty. Otherwise the returned payload has the field
  \<^verbatim>\<open>episode_index_task_map\<close> exactly when some selected episode has a non-empty override
  label, and then the map sends exactly the selected episodes with a non-empty override to
  their override label.
\<close>

subsection \<open>The program stores labels only\<close>

lemma labels_only_setEpisodeTask:
  assumes "labels_only td" and "task \<noteq> Some []"
  shows "labels_only (setEpisodeTask k task td)"
  using assms
  by (cases task) (auto simp: labels_only_def setEpisodeTask_def getEpisodeTask_def
      update_conv' delete_conv')

lemma labels_only_removeTask:
  assumes "labels_only td"
  shows "labels_only (removeTask task td)"
proof -
  have "getEpisodeTask (removeTask task td) k \<noteq> Some []" for k
    using assms by (simp add: labels_only_def getEpisodeTask_removeTask)
  moreover have "[] \<notin> set (availableTasks (removeTask task td))"
    using assms by (simp add: labels_only_def removeTask_def)
  ultimately show ?thesis
    by (simp add: labels_only_def)
qed

lemma labels_only_task_step:
  assumes "labels_only td"
  shows "labels_only (task_step a td)"
proof (cases a)
  case (Add_task trimmedTask)
  with assms show ?thesis
    by (auto simp: handleAddTask_def addTask_def labels_only_def getEpisodeTask_def)
next
  case (Remove_task task)
  with assms show ?thesis
    by (simp add: labels_only_removeTask)
next
  case (Digit_key currentEpisodeId taskIndex)
  have "taskIndex < length (availableTasks td) \<Longrightarrow> availableTasks td ! taskIndex \<noteq> []"
    using assms by (metis labels_only_def nth_mem)
  with Digit_key assms show ?thesis
    by (simp add: digit_key_def labels_only_setEpisodeTask)
next
  case (Select_change episodeId option)
  have "i < length (availableTasks td) \<Longrightarrow> availableTasks td ! i \<noteq> []" for i
    using assms by (metis labels_only_def nth_mem)
  with Select_change assms show ?thesis
    by (cases option) (simp_all add: select_change_def labels_only_setEpisodeTask)
qed

lemma labels_only_fold:
  assumes "labels_only td"
  shows "labels_only (fold task_step actions td)"
  using assms
  by (induction actions arbitrary: td) (simp_all add: labels_only_task_step)

text \<open>
  Whatever the user does, from the empty state, the hook never returns the empty string
  for an episode. (What the hook loads from local storage is a state it saved before.)
\<close>

lemma session_labels_only:
  "labels_only (session actions)"
proof -
  have "labels_only \<lparr>availableTasks = [], episodeTasks = []\<rparr>"
    by (simp add: labels_only_def getEpisodeTask_def)
  then show ?thesis
    unfolding session_def by (rule labels_only_fold)
qed

lemma session_labels:
  "episode_task (session actions) ep \<noteq> Some []"
  using session_labels_only [of actions]
  by (simp add: labels_only_def episode_task_def)

subsection \<open>The map of the creation request\<close>

text \<open>
  Claim C1. The callback returns a label or \<^verbatim>\<open>undefined\<close> for each selected episode (as
  the hook does, by \<open>session_labels\<close>). A call with a non-empty selection throws only when
  the dataset id or the new repository id is empty. Otherwise the returned payload has
  the field \<^verbatim>\<open>episode_index_task_map\<close> exactly when the callback returns a label for some
  selected episode, and then the map sends exactly the selected episodes with a label to
  their label.
\<close>

theorem episode_index_task_map_iff_override:
  assumes "selectedEpisodes \<noteq> []"
      and "\<forall>ep \<in> set selectedEpisodes. getTask ep \<noteq> Some []"
  shows "case createDatasetRequest datasetId newRepoId selectedEpisodes getTask of
           Inl err \<Rightarrow> datasetId = [] \<or> newRepoId = []
         | Inr payload \<Rightarrow>
             (episode_index_task_map payload \<noteq> None \<longleftrightarrow>
                (\<exists>ep \<in> set selectedEpisodes. getTask ep \<noteq> None)) \<and>
             (\<forall>m. episode_index_task_map payload = Some m \<longrightarrow>
                (\<forall>ep. map_of m ep = (if ep \<in> set selectedEpisodes then getTask ep else None)))"
proof (cases "datasetId = [] \<or> newRepoId = []")
  case True
  then show ?thesis
    by (auto simp: createDatasetRequest_def)
next
  case False
  have lab: "labelled getTask ep \<longleftrightarrow> getTask ep \<noteq> None" if "ep \<in> set selectedEpisodes" for ep
    using assms(2) that by (auto simp: labelled_def split: option.splits)
  then have some: "(\<exists>ep \<in> set selectedEpisodes. labelled getTask ep) \<longleftrightarrow>
      (\<exists>ep \<in> set selectedEpisodes. getTask ep \<noteq> None)"
    by blast
  have entry: "map_of (fold (collect_step getTask) selectedEpisodes []) ep =
      (if ep \<in> set selectedEpisodes then getTask ep else None)" for ep
    using lab [of ep] by (auto simp: map_of_fold_collect)
  from False assms(1) have "createDatasetRequest datasetId newRepoId selectedEpisodes getTask =
      Inr \<lparr>original_repo_id = datasetId, new_repo_id = newRepoId,
           selected_episodes = selectedEpisodes,
           episode_index_task_map =
             (if \<exists>ep \<in> set selectedEpisodes. getTask ep \<noteq> None
              then Some (fold (collect_step getTask) selectedEpisodes []) else None)\<rparr>"
    by (simp add: createDatasetRequest_returns some)
  then show ?thesis
    by (simp add: entry)
qed

theorem episode_index_task_map_iff_override_witness:
  "createDatasetRequest ''namespace/dataset'' ''namespace/new-dataset'' [0, 1, 2]
       (\<lambda>id. if id = 1 then Some ''override'' else None) =
     Inr \<lparr>original_repo_id = ''namespace/dataset'',
          new_repo_id = ''namespace/new-dataset'',
          selected_episodes = [0, 1, 2],
          episode_index_task_map = Some [(1, ''override'')]\<rparr> \<and>
   createDatasetRequest ''repo'' ''repo/new'' [0, 1] (\<lambda>id. None) =
     Inr \<lparr>original_repo_id = ''repo'',
          new_repo_id = ''repo/new'',
          selected_episodes = [0, 1],
          episode_index_task_map = None\<rparr>"
  using episode_index_task_map_iff_override
          [of "[0, 1, 2]" "\<lambda>id. if id = 1 then Some ''override'' else None"
              "''namespace/dataset''" "''namespace/new-dataset''"]
        episode_index_task_map_iff_override [of "[0, 1]" "\<lambda>id. None" "''repo''" "''repo/new''"]
  by (simp add: createDatasetRequest_def collect_step_def)

text \<open>
  Claim C6. The viewer passes the hook's \<^verbatim>\<open>getEpisodeTask\<close> to \<^verbatim>\<open>createDatasetRequest\<close>.
  In every state the hook reaches by user actions, for a selected episode with an override,
  the request (built unless the dataset id or the new repository id is empty) has a map
  that sends the episode to its override label, whatever the default task is; and the
  whole request does not depend on the label list, so not on the default (first) task.
\<close>

theorem override_precedes_default:
  assumes "ep \<in> set selectedEpisodes"
      and "episode_task (session actions) ep = Some task"
  shows "case createDatasetRequest datasetId newRepoId selectedEpisodes
                (episode_task (session actions)) of
           Inl err \<Rightarrow> datasetId = [] \<or> newRepoId = []
         | Inr payload \<Rightarrow>
             (\<exists>m. episode_index_task_map payload = Some m \<and> map_of m ep = Some task \<and>
                  (getDefaultTask (session actions) \<noteq> Some task \<longrightarrow>
                     map_of m ep \<noteq> getDefaultTask (session actions))) \<and>
             createDatasetRequest datasetId newRepoId selectedEpisodes
                 (episode_task ((session actions)\<lparr>availableTasks := tasks\<rparr>)) = Inr payload"
proof (cases "datasetId = [] \<or> newRepoId = []")
  case True
  then show ?thesis
    by (auto simp: createDatasetRequest_def)
next
  case False
  have sel: "selectedEpisodes \<noteq> []"
    using assms(1) by auto
  have "task \<noteq> []"
    using assms(2) session_labels [of actions ep] by auto
  then have lab: "labelled (episode_task (session actions)) ep"
    using assms(2) by (simp add: labelled_def)
  then have some: "\<exists>e \<in> set selectedEpisodes. labelled (episode_task (session actions)) e"
    using assms(1) by blast
  have same: "episode_task ((session actions)\<lparr>availableTasks := tasks\<rparr>) = episode_task (session actions)"
    by (intro ext) (simp add: episode_task_def getEpisodeTask_def)
  from False sel some lab assms show ?thesis
    by (simp add: createDatasetRequest_returns [of datasetId newRepoId selectedEpisodes]
        map_of_fold_collect same)
qed

theorem override_precedes_default_witness:
  "session [Add_task ''pick'', Add_task ''place'', Select_change ''1'' (Some 1)] =
     \<lparr>availableTasks = [''pick'', ''place''], episodeTasks = [(''1'', ''place'')]\<rparr> \<and>
   getDefaultTask (session [Add_task ''pick'', Add_task ''place'', Select_change ''1'' (Some 1)])
     = Some ''pick'' \<and>
   createDatasetRequest ''ns/ds'' ''ns/new'' [0, 1]
       (episode_task (session [Add_task ''pick'', Add_task ''place'', Select_change ''1'' (Some 1)])) =
     Inr \<lparr>original_repo_id = ''ns/ds'',
          new_repo_id = ''ns/new'',
          selected_episodes = [0, 1],
          episode_index_task_map = Some [(1, ''place'')]\<rparr>"
proof -
  have st: "session [Add_task ''pick'', Add_task ''place'', Select_change ''1'' (Some 1)] =
      \<lparr>availableTasks = [''pick'', ''place''], episodeTasks = [(''1'', ''place'')]\<rparr>"
    by (simp add: session_def handleAddTask_def addTask_def select_change_def setEpisodeTask_def)
  have keys: "ToString 0 = ''0''" "ToString 1 = ''1''"
    by (simp_all add: ToString_def show_nat.simps [of 0] show_nat.simps [of 1]
        show_nat.simps [of "Suc 0"])
  have task: "episode_task \<lparr>availableTasks = [''pick'', ''place''], episodeTasks = [(''1'', ''place'')]\<rparr> 1
      = Some ''place''"
    by (simp add: episode_task_def getEpisodeTask_def keys)
  from override_precedes_default
         [of 1 "[0, 1]" "[Add_task ''pick'', Add_task ''place'', Select_change ''1'' (Some 1)]"
             "''place''" "''ns/ds''" "''ns/new''" "[]"]
  show ?thesis
    unfolding st using task
    by (simp add: createDatasetRequest_def collect_step_def episode_task_def getEpisodeTask_def
        getDefaultTask_def keys)
qed

section \<open>Properties of the video preloader\<close>

subsection \<open>The retained map is bounded by the window\<close>

lemma distinct_preloadVideo:
  assumes "distinct (map fst videos)"
  shows "distinct (map fst (preloadVideo getVideoUrl episodeId videos))"
proof (cases "map_of videos episodeId")
  case None
  then have "episodeId \<notin> fst ` set videos"
    by (simp add: map_of_eq_None_iff)
  with assms None show ?thesis
    by (simp add: preloadVideo_def split: option.splits)
next
  case (Some v)
  with assms show ?thesis
    by (simp add: preloadVideo_def)
qed

lemma fold_preload_previous:
  assumes "distinct (map fst (snd st))"
  shows "distinct (map fst (snd (fold (preload_previous c g) is st))) \<and>
         length (fst (fold (preload_previous c g) is st)) \<le> length (fst st) + length is \<and>
         set (fst (fold (preload_previous c g) is st)) \<subseteq>
           set (fst st) \<union> {e. \<exists>i \<in> set is. e = c - int i \<and> 0 \<le> e}"
  using assms
proof (induction "is" arbitrary: st)
  case Nil
  then show ?case by simp
next
  case (Cons i "is")
  let ?st = "preload_previous c g i st"
  have d: "distinct (map fst (snd ?st))"
    using Cons.prems by (simp add: preload_previous_def Let_def distinct_preloadVideo)
  have l: "length (fst ?st) \<le> length (fst st) + 1"
    by (simp add: preload_previous_def Let_def List.insert_def)
  have s: "set (fst ?st) \<subseteq> set (fst st) \<union> {e. e = c - int i \<and> 0 \<le> e}"
    by (auto simp: preload_previous_def Let_def)
  from Cons.IH [OF d] l s show ?case
    by auto
qed

lemma fold_preload_next:
  assumes "distinct (map fst (snd st))"
  shows "distinct (map fst (snd (fold (preload_next c t g) is st))) \<and>
         length (fst (fold (preload_next c t g) is st)) \<le> length (fst st) + length is \<and>
         set (fst (fold (preload_next c t g) is st)) \<subseteq>
           set (fst st) \<union> {e. \<exists>i \<in> set is. e = c + int i \<and> e < t}"
  using assms
proof (induction "is" arbitrary: st)
  case Nil
  then show ?case by simp
next
  case (Cons i "is")
  let ?st = "preload_next c t g i st"
  have d: "distinct (map fst (snd ?st))"
    using Cons.prems by (simp add: preload_next_def Let_def distinct_preloadVideo)
  have l: "length (fst ?st) \<le> length (fst st) + 1"
    by (simp add: preload_next_def Let_def List.insert_def)
  have s: "set (fst ?st) \<subseteq> set (fst st) \<union> {e. e = c + int i \<and> e < t}"
    by (auto simp: preload_next_def Let_def)
  from Cons.IH [OF d] l s show ?case
    by auto
qed

lemma preloader_effect_bound:
  assumes "distinct (map fst videos)"
  shows "distinct (map fst (preloader_effect c t g n videos)) \<and>
         length (preloader_effect c t g n videos) \<le> 2 * n + 1 \<and>
         (\<forall>e \<in> fst ` set (preloader_effect c t g n videos). e = c \<or> in_window c t n e)"
proof -
  define idx where "idx = [1..<Suc n]"
  define st1 where "st1 = fold (preload_previous c g) idx ([], videos)"
  define st2 where "st2 = fold (preload_next c t g) idx st1"
  have idx: "length idx = n" "\<And>i. i \<in> set idx \<Longrightarrow> 1 \<le> i \<and> i \<le> n"
    by (auto simp: idx_def)
  have eff: "preloader_effect c t g n videos = evict c (fst st2) (snd st2)"
    by (simp only: preloader_effect_def st1_def st2_def idx_def Let_def)
  have start: "distinct (map fst (snd ([]::int list, videos)))"
    using assms by simp
  have p1: "distinct (map fst (snd st1))" "length (fst st1) \<le> n"
    "set (fst st1) \<subseteq> {e. \<exists>i \<in> set idx. e = c - int i \<and> 0 \<le> e}"
    using fold_preload_previous [OF start, of c g idx] idx(1)
    by (simp_all add: st1_def)
  have p2: "distinct (map fst (snd st2))" "length (fst st2) \<le> length (fst st1) + n"
    "set (fst st2) \<subseteq> set (fst st1) \<union> {e. \<exists>i \<in> set idx. e = c + int i \<and> e < t}"
    using fold_preload_next [OF p1(1), of c t g idx] idx(1)
    by (simp_all add: st2_def)
  have win: "in_window c t n e" if "e \<in> set (fst st2)" for e
  proof -
    from that p2(3) p1(3) consider i where "i \<in> set idx" "e = c - int i" "0 \<le> e"
      | i where "i \<in> set idx" "e = c + int i" "e < t"
      by blast
    then show ?thesis
    proof cases
      case 1
      with idx(2) [of i] show ?thesis by (simp add: in_window_def)
    next
      case 2
      with idx(2) [of i] show ?thesis by (simp add: in_window_def)
    qed
  qed
  have keys: "fst ` set (evict c (fst st2) (snd st2)) \<subseteq> insert c (set (fst st2))"
    by (auto simp: evict_def)
  have dist: "distinct (map fst (evict c (fst st2) (snd st2)))"
    using p2(1) by (simp add: evict_def distinct_map_filter)
  have "length (evict c (fst st2) (snd st2)) = card (fst ` set (evict c (fst st2) (snd st2)))"
    using distinct_card [OF dist] by simp
  also have "\<dots> \<le> card (insert c (set (fst st2)))"
    using keys by (intro card_mono) simp_all
  also have "\<dots> \<le> Suc (card (set (fst st2)))"
    by (simp add: card_insert_if)
  also have "\<dots> \<le> Suc (length (fst st2))"
    by (simp add: card_length)
  also have "\<dots> \<le> 2 * n + 1"
    using p1(2) p2(2) by simp
  finally have len: "length (evict c (fst st2) (snd st2)) \<le> 2 * n + 1" .
  from dist len keys win show ?thesis
    unfolding eff by auto
qed

lemma distinct_fold_run_effect:
  assumes "distinct (map fst videos)"
  shows "distinct (map fst (fold run_effect runs videos))"
  using assms
proof (induction runs arbitrary: videos)
  case Nil
  then show ?case by simp
next
  case (Cons r runs)
  obtain c t g n where r: "r = (c, t, g, n)"
    by (cases r) auto
  show ?case
    using Cons.IH [of "run_effect r videos"] preloader_effect_bound [OF Cons.prems, of c t g n]
    by (simp add: r)
qed

text \<open>
  Claim C4. Start from the empty map and run the effect for any list of navigations. After
  the last run, with current episode \<open>c\<close>, episode count \<open>t\<close> and window size \<open>n\<close>, the map
  has at most \<open>2 * n + 1\<close> entries (its keys are distinct, so the length is the number of
  entries), and each key is \<open>c\<close> or one of the neighbours of \<open>c\<close> inside the window.
\<close>

theorem preloader_retains_window:
  "distinct (map fst (fold run_effect (runs @ [(c, t, g, n)]) [])) \<and>
   length (fold run_effect (runs @ [(c, t, g, n)]) []) \<le> 2 * n + 1 \<and>
   (\<forall>e \<in> fst ` set (fold run_effect (runs @ [(c, t, g, n)]) []). e = c \<or> in_window c t n e)"
proof -
  have "distinct (map fst (fold run_effect runs []))"
    by (rule distinct_fold_run_effect) simp
  from preloader_effect_bound [OF this, of c t g n] show ?thesis
    by simp
qed

theorem preloader_retains_window_witness:
  "map fst (fold run_effect
       [(2, 10, \<lambda>e. Some ''v'', 2), (3, 10, \<lambda>e. Some ''v'', 2), (8, 10, \<lambda>e. Some ''v'', 2)] [])
     = [7, 6, 9] \<and>
   map fst (fold run_effect
       [(2, 10, \<lambda>e. Some ''v'', 2), (3, 10, \<lambda>e. Some ''v'', 2)] [])
     = [1, 3, 4, 2, 5] \<and>
   length (fold run_effect
       [(2, 10, \<lambda>e. Some ''v'', 2), (3, 10, \<lambda>e. Some ''v'', 2)] []) \<le> 2 * 2 + 1"
  using preloader_retains_window [of "[(2, 10, \<lambda>e. Some ''v'', 2)]" 3 10 "\<lambda>e. Some ''v''" 2]
  by (simp add: preloader_effect_def preload_previous_def preload_next_def preloadVideo_def
      evict_def Let_def upt_rec)

section \<open>Properties of the polling loops\<close>

subsection \<open>What the wait loop does\<close>

lemma polled_Suc:
  "events @ [Request, Sleep pollInterval] @ concat (replicate n [Request, Sleep pollInterval]) =
   events @ concat (replicate (Suc n) [Request, Sleep pollInterval])"
  by simp

lemma polled_counts:
  "count_list (polled k) Request = k"
  "sum_list (map (\<lambda>e. case e of Request \<Rightarrow> 0 | Sleep ms \<Rightarrow> ms) (polled k)) = k * 1000"
  by (induction k) (simp_all add: polled_def)

lemma waitForDataset_from_skip:
  assumes "\<forall>j. retries \<le> j \<and> j < k \<longrightarrow> still_loading (g j)"
      and "retries \<le> k" and "k \<le> maxRetries"
  shows "\<exists>seen'. waitForDataset_from g retries events seen lines =
           waitForDataset_from g k
             (events @ concat (replicate (k - retries) [Request, Sleep pollInterval])) seen' lines"
  using assms
proof (induction "k - retries" arbitrary: retries events seen)
  case 0
  then have "retries = k" by simp
  then show ?case by auto
next
  case (Suc n)
  then have lt: "retries < k" and "still_loading (g retries)"
    by auto
  then obtain st where st: "g retries = Resolved st"
      "DatasetLoadingStatus.status st \<noteq> Ready" "DatasetLoadingStatus.status st \<noteq> Error"
    by (auto simp: still_loading_def split: reply.splits)
  from lt Suc.prems have "retries < maxRetries"
    by simp
  with st have step: "waitForDataset_from g retries events seen lines =
      waitForDataset_from g (retries + 1) (events @ [Request, Sleep pollInterval]) (seen @ [st]) lines"
    by (simp add: waitForDataset_from.simps [of g retries events seen lines])
  have n: "n = k - (retries + 1)" and more: "k - retries = Suc (k - (retries + 1))"
    using Suc.hyps(2) lt by simp_all
  have "\<exists>seen'. waitForDataset_from g (retries + 1) (events @ [Request, Sleep pollInterval])
          (seen @ [st]) lines =
        waitForDataset_from g k
          ((events @ [Request, Sleep pollInterval]) @
             concat (replicate (k - (retries + 1)) [Request, Sleep pollInterval])) seen' lines"
    using Suc.prems lt by (intro Suc.hyps(1) n) auto
  then show ?case
    unfolding step more by simp
qed

lemma waitForDataset_reaches:
  assumes "\<forall>j < k. still_loading (g j)" and "k \<le> maxRetries"
  shows "\<exists>seen'. waitForDataset g lines = waitForDataset_from g k (polled k) seen' lines"
  using waitForDataset_from_skip [of 0 k g "[]" "[]" lines] assms
  by (simp add: waitForDataset_def polled_def pollInterval_def)

lemma waitForDataset_decided:
  assumes "k < maxRetries" and "\<not> still_loading (g k)" and "\<forall>j < k. still_loading (g j)"
  shows "result (waitForDataset g lines) = decided (g k) \<and>
         timeline (waitForDataset g lines) = polled k @ [Request] \<and>
         logged (waitForDataset g lines) = lines"
proof -
  from assms obtain seen' where
    at: "waitForDataset g lines = waitForDataset_from g k (polled k) seen' lines"
    using waitForDataset_reaches [of k g lines] by auto
  show ?thesis
  proof (cases "g k")
    case Rejected
    with assms(1) show ?thesis
      by (simp add: at waitForDataset_from.simps [of g k] decided_def)
  next
    case (Resolved st)
    with assms(2) have "DatasetLoadingStatus.status st = Ready \<or> DatasetLoadingStatus.status st = Error"
      by (auto simp: still_loading_def)
    with Resolved assms(1) show ?thesis
      by (auto simp: at waitForDataset_from.simps [of g k] decided_def)
  qed
qed

lemma waitForDataset_timeout:
  assumes "\<forall>j < maxRetries. still_loading (g j)"
  shows "result (waitForDataset g lines) = Inl Dataset_loading_timeout \<and>
         timeline (waitForDataset g lines) = polled maxRetries \<and>
         logged (waitForDataset g lines) = lines"
proof -
  from assms obtain seen' where
    "waitForDataset g lines = waitForDataset_from g maxRetries (polled maxRetries) seen' lines"
    using waitForDataset_reaches [of maxRetries g lines] by auto
  then show ?thesis
    by (simp add: waitForDataset_from.simps [of g maxRetries])
qed

text \<open>Every run of requests falls under exactly one of the two lemmas above.\<close>

lemma first_decisive_reply:
  obtains (stalled) "\<forall>j < maxRetries. still_loading (g j)"
  | (decisive) k where "k < maxRetries" "\<not> still_loading (g k)" "\<forall>j < k. still_loading (g j)"
proof (cases "\<forall>j < maxRetries. still_loading (g j)")
  case True
  then show ?thesis by (rule stalled)
next
  case False
  define k where "k = (LEAST j. j < maxRetries \<and> \<not> still_loading (g j))"
  from False have ex: "\<exists>j. j < maxRetries \<and> \<not> still_loading (g j)"
    by blast
  then have "k < maxRetries \<and> \<not> still_loading (g k)"
    unfolding k_def by (rule LeastI_ex)
  moreover have "still_loading (g j)" if "j < k" for j
  proof (rule ccontr)
    assume "\<not> still_loading (g j)"
    with that calculation have "j < maxRetries \<and> \<not> still_loading (g j)"
      by simp
    then have "k \<le> j"
      unfolding k_def by (rule Least_le)
    with that show False by simp
  qed
  ultimately show ?thesis
    using decisive by blast
qed

lemma decided_ready:
  "decided r = Inr () \<longleftrightarrow> reports_ready r"
  by (simp add: decided_def reports_ready_def split: reply.splits)

lemma ready_not_loading:
  "reports_ready r \<Longrightarrow> \<not> still_loading r"
  by (simp add: reports_ready_def still_loading_def split: reply.splits)

subsection \<open>A failed request during polling\<close>

lemma rejected_then_tick:
  assumes "interval v = Some (period, taskId)"
  shows "fold (poll_step datasetId) (concat (replicate n [Settled Rejected, Tick])) v =
           v\<lparr>console := console v @ replicate n ''Error polling creation status:'',
              requested := requested v @ replicate n taskId\<rparr>"
  using assms
proof (induction n arbitrary: v)
  case 0
  then show ?case by simp
next
  case (Suc n)
  let ?v = "poll_step datasetId Tick (poll_step datasetId (Settled Rejected) v)"
  have v: "?v = v\<lparr>console := console v @ [''Error polling creation status:''],
                    requested := requested v @ [taskId]\<rparr>"
    using Suc.prems by (simp add: pollStatus_settled_def pollStatus_request_def)
  then have int: "interval ?v = Some (period, taskId)"
    using Suc.prems by simp
  have "fold (poll_step datasetId) (concat (replicate (Suc n) [Settled Rejected, Tick])) v =
        fold (poll_step datasetId) (concat (replicate n [Settled Rejected, Tick])) ?v"
    by simp
  also have "\<dots> = ?v\<lparr>console := console ?v @ replicate n ''Error polling creation status:'',
                       requested := requested ?v @ replicate n taskId\<rparr>"
    by (rule Suc.IH [OF int])
  also have "\<dots> = v\<lparr>console := console v @ replicate (Suc n) ''Error polling creation status:'',
                      requested := requested v @ replicate (Suc n) taskId\<rparr>"
    unfolding v by simp
  finally show ?case .
qed

text \<open>
  Claim C5, as amended. \<^verbatim>\<open>waitForDataset\<close> makes at most 300 status requests and waits at
  most 300 times 1000 milliseconds, and writes nothing to the console. It returns normally
  exactly when some request among the first 300 reports \<^verbatim>\<open>ready\<close> and every earlier one
  reported a status that is neither \<^verbatim>\<open>ready\<close> nor \<^verbatim>\<open>error\<close>. At the first request that
  does not report such a status it ends at once, after one wait of 1000 milliseconds
  behind each earlier request: normally on \<^verbatim>\<open>ready\<close>, by throwing on \<^verbatim>\<open>error\<close>, and by
  throwing on a rejected request, which is then the last request. After 300 requests that
  all keep loading, each followed by a wait of 1000 milliseconds, it throws the timeout.
  In the creation-status poll of the viewer a rejected request only writes a console line;
  the interval stays armed and goes on sending requests, any number of them.
\<close>

theorem polling_failed_request:
  "requests (waitForDataset g lines) \<le> 300 \<and>
   slept (waitForDataset g lines) \<le> 300 * 1000 \<and>
   logged (waitForDataset g lines) = lines \<and>
   (result (waitForDataset g lines) = Inr () \<longleftrightarrow>
      (\<exists>k < 300. reports_ready (g k) \<and> (\<forall>j < k. still_loading (g j)))) \<and>
   (\<forall>k < 300. \<not> still_loading (g k) \<and> (\<forall>j < k. still_loading (g j)) \<longrightarrow>
      result (waitForDataset g lines) = decided (g k) \<and>
      timeline (waitForDataset g lines) = polled k @ [Request]) \<and>
   (\<forall>k < 300. g k = Rejected \<and> (\<forall>j < k. still_loading (g j)) \<longrightarrow>
      result (waitForDataset g lines) = Inl Request_rejected \<and>
      timeline (waitForDataset g lines) = polled k @ [Request]) \<and>
   ((\<forall>j < 300. still_loading (g j)) \<longrightarrow>
      result (waitForDataset g lines) = Inl Dataset_loading_timeout \<and>
      timeline (waitForDataset g lines) = polled 300) \<and>
   (interval v = Some (period, taskId) \<longrightarrow>
      fold (poll_step datasetId) (concat (replicate n [Settled Rejected, Tick])) v =
        v\<lparr>console := console v @ replicate n ''Error polling creation status:'',
           requested := requested v @ replicate n taskId\<rparr>)"
proof -
  have m: "maxRetries = 300"
    by (simp add: maxRetries_def)
  have bounds: "requests (waitForDataset g lines) \<le> 300 \<and>
      slept (waitForDataset g lines) \<le> 300 * 1000 \<and> logged (waitForDataset g lines) = lines"
  proof (cases g rule: first_decisive_reply)
    case stalled
    then show ?thesis
      using waitForDataset_timeout [of g lines]
      by (simp add: requests_def slept_def polled_counts m)
  next
    case (decisive k)
    then show ?thesis
      using waitForDataset_decided [of k g lines]
      by (simp add: requests_def slept_def polled_counts m)
  qed
  have ready: "result (waitForDataset g lines) = Inr () \<longleftrightarrow>
      (\<exists>k < 300. reports_ready (g k) \<and> (\<forall>j < k. still_loading (g j)))"
  proof
    assume ok: "result (waitForDataset g lines) = Inr ()"
    show "\<exists>k < 300. reports_ready (g k) \<and> (\<forall>j < k. still_loading (g j))"
    proof (cases g rule: first_decisive_reply)
      case stalled
      with ok show ?thesis
        using waitForDataset_timeout [of g lines] by simp
    next
      case (decisive k)
      with ok have "reports_ready (g k)"
        using waitForDataset_decided [of k g lines] by (simp add: decided_ready)
      with decisive show ?thesis
        unfolding m by blast
    qed
  next
    assume "\<exists>k < 300. reports_ready (g k) \<and> (\<forall>j < k. still_loading (g j))"
    then obtain k where k: "k < 300" "reports_ready (g k)" "\<forall>j < k. still_loading (g j)"
      by blast
    then show "result (waitForDataset g lines) = Inr ()"
      using waitForDataset_decided [of k g lines] ready_not_loading [of "g k"]
      by (simp add: m decided_ready)
  qed
  have decided: "\<forall>k < 300. \<not> still_loading (g k) \<and> (\<forall>j < k. still_loading (g j)) \<longrightarrow>
      result (waitForDataset g lines) = decided (g k) \<and>
      timeline (waitForDataset g lines) = polled k @ [Request]"
    using waitForDataset_decided [of _ g lines] by (simp add: m)
  have rejected: "\<forall>k < 300. g k = Rejected \<and> (\<forall>j < k. still_loading (g j)) \<longrightarrow>
      result (waitForDataset g lines) = Inl Request_rejected \<and>
      timeline (waitForDataset g lines) = polled k @ [Request]"
  proof (intro allI impI)
    fix k
    assume "k < 300" and k: "g k = Rejected \<and> (\<forall>j < k. still_loading (g j))"
    then have "\<not> still_loading (g k)" and "decided (g k) = Inl Request_rejected"
      by (simp_all add: still_loading_def decided_def)
    with \<open>k < 300\<close> k show "result (waitForDataset g lines) = Inl Request_rejected \<and>
        timeline (waitForDataset g lines) = polled k @ [Request]"
      using waitForDataset_decided [of k g lines] by (simp add: m)
  qed
  have timeout: "(\<forall>j < 300. still_loading (g j)) \<longrightarrow>
      result (waitForDataset g lines) = Inl Dataset_loading_timeout \<and>
      timeline (waitForDataset g lines) = polled 300"
    using waitForDataset_timeout [of g lines] by (simp add: m)
  from bounds ready decided rejected timeout show ?thesis
    using rejected_then_tick [of v period taskId datasetId n] by blast
qed

theorem polling_failed_request_witness:
  "script [Resolved \<lparr>DatasetLoadingStatus.status = Loading, message = None\<rparr>, Rejected]
       (Resolved \<lparr>DatasetLoadingStatus.status = Ready, message = None\<rparr>) 1 = Rejected \<and>
   result (waitForDataset
     (script [Resolved \<lparr>DatasetLoadingStatus.status = Loading, message = None\<rparr>, Rejected]
       (Resolved \<lparr>DatasetLoadingStatus.status = Ready, message = None\<rparr>)) []) = Inl Request_rejected \<and>
   timeline (waitForDataset
     (script [Resolved \<lparr>DatasetLoadingStatus.status = Loading, message = None\<rparr>, Rejected]
       (Resolved \<lparr>DatasetLoadingStatus.status = Ready, message = None\<rparr>)) []) =
     [Request, Sleep 1000, Request] \<and>
   requested (fold (poll_step ''ns/ds'') (concat (replicate 2 [Settled Rejected, Tick]))
       (creation_started ''t1'')) = [''t1'', ''t1'', ''t1'', ''t1'']"
proof -
  let ?g = "script [Resolved \<lparr>DatasetLoadingStatus.status = Loading, message = None\<rparr>, Rejected]
       (Resolved \<lparr>DatasetLoadingStatus.status = Ready, message = None\<rparr>)"
  have started: "interval (creation_started ''t1'') = Some (2000, ''t1'')"
    "requested (creation_started ''t1'') = [''t1'', ''t1'']"
    by (simp_all add: creation_started_def render_def poll_effect_def poll_cleanup_def
        pollStatus_request_def creationPollInterval_def Let_def)
  have at1: "?g 1 = Rejected" and before: "\<forall>j < 1. still_loading (?g j)"
    by (simp_all add: script_def still_loading_def)
  note all = polling_failed_request [of ?g "[]" "creation_started ''t1''" 2000 "''t1''" "''ns/ds''" 2]
  note rejected = all [THEN conjunct2, THEN conjunct2, THEN conjunct2, THEN conjunct2,
      THEN conjunct2, THEN conjunct1, rule_format, of 1]
  note kept = all [THEN conjunct2, THEN conjunct2, THEN conjunct2, THEN conjunct2,
      THEN conjunct2, THEN conjunct2, THEN conjunct2, rule_format, OF started(1)]
  from at1 before have "result (waitForDataset ?g []) = Inl Request_rejected \<and>
      timeline (waitForDataset ?g []) = polled 1 @ [Request]"
    by (intro rejected) simp_all
  moreover have "requested (fold (poll_step ''ns/ds'') (concat (replicate 2 [Settled Rejected, Tick]))
       (creation_started ''t1'')) = [''t1'', ''t1'', ''t1'', ''t1'']"
    unfolding kept using started(2) by (simp add: numeral_2_eq_2)
  ultimately show ?thesis
    using at1 by (simp add: polled_def)
qed

text \<open>
  The claim as written lets polling go on after a network error until the maximum number
  of attempts. In \<^verbatim>\<open>waitForDataset\<close> the first request is rejected here and the second would
  report \<^verbatim>\<open>ready\<close>: the call throws after one request, and the console stays empty.
\<close>

theorem polling_failed_request_counterexample:
  "waitForDataset (script [Rejected] (Resolved \<lparr>DatasetLoadingStatus.status = Ready, message = None\<rparr>)) [] =
     \<lparr>result = Inl Request_rejected, timeline = [Request], reported = [], logged = []\<rparr>"
  by (simp add: waitForDataset_def waitForDataset_from.simps [of _ 0] maxRetries_def script_def)

subsection \<open>When the creation poll stops, and how often it polls\<close>

lemma settled_terminal:
  assumes "status st = Completed \<or> status st = Failed"
  shows "creationTaskId (poll_step datasetId (Settled (Resolved st)) v) = None \<and>
         interval (poll_step datasetId (Settled (Resolved st)) v) = None \<and>
         requested (poll_step datasetId (Settled (Resolved st)) v) = requested v"
  using assms
  by (auto simp: pollStatus_settled_def render_def poll_effect_def poll_cleanup_def Let_def)

lemma settled_in_progress:
  assumes "status st = Pending \<or> status st = Running"
      and "creationTaskId v = Some taskId" and "taskId \<noteq> []"
  shows "creationTaskId (poll_step datasetId (Settled (Resolved st)) v) = Some taskId \<and>
         interval (poll_step datasetId (Settled (Resolved st)) v) = Some (2000, taskId)"
  using assms
  by (auto simp: pollStatus_settled_def render_def poll_effect_def poll_cleanup_def
      pollStatus_request_def creationPollInterval_def Let_def)

lemma stopped_stays_silent:
  assumes "interval v = None"
  shows "poll_step datasetId Tick v = v"
  using assms by simp

lemma unmount_clears_interval:
  "interval (poll_step datasetId Unmount v) = None"
  by (simp add: poll_cleanup_def)

text \<open>
  Claim C8, at the input where the code departs from it. A creation task \<open>t1\<close> is started,
  which renders the component twice and sends two requests, and the server answers
  \<^verbatim>\<open>running\<close> twice. Each answer sets the status, the component renders with a new
  \<^verbatim>\<open>clearSelection\<close>, the effect is cleaned up and run again, and its initial poll sends
  the next request at once: four requests are sent and the interval has not fired once.
\<close>

theorem creation_poll_rerun_on_render:
  "requested (fold (poll_step ''ns/ds'')
       [Settled (Resolved \<lparr>task_id = ''t1'', status = Running, message = None, new_repo_id = None\<rparr>),
        Settled (Resolved \<lparr>task_id = ''t1'', status = Running, message = None, new_repo_id = None\<rparr>)]
       (creation_started ''t1'')) = [''t1'', ''t1'', ''t1'', ''t1'']"
  by (simp add: creation_started_def render_def poll_effect_def poll_cleanup_def
      pollStatus_request_def pollStatus_settled_def Let_def)

end
